theory Spec2Isabelle
  imports Main "HOL-Library.AList" "HOL-Library.Multiset"
begin

section \<open>The pieces of Go's \<open>strings\<close> package that ssmenv.go calls\<close>

text \<open>
  A Go string is a sequence of bytes; \<open>string\<close> is a list of 8-bit characters.

  \<^verbatim>\<open>strings.SplitN(env, "=", 2)\<close> cuts \<open>env\<close> at the first occurrence of the separator
  and returns the two pieces, or returns \<open>env\<close> alone when the separator does not occur.
  The separator of the only call site is one byte long, so it is a \<open>char\<close> here.
\<close>

definition SplitN2 :: "string \<Rightarrow> char \<Rightarrow> string list" where
  "SplitN2 s sep =
     (if sep \<in> set s
      then [takeWhile (\<lambda>c. c \<noteq> sep) s, tl (dropWhile (\<lambda>c. c \<noteq> sep) s)]
      else [s])"

definition HasPrefix :: "string \<Rightarrow> string \<Rightarrow> bool" where
  "HasPrefix s p = (length p \<le> length s \<and> take (length p) s = p)"

definition TrimPrefix :: "string \<Rightarrow> string \<Rightarrow> string" where
  "TrimPrefix s p = (if HasPrefix s p then drop (length p) s else s)"

fun Join :: "string list \<Rightarrow> string \<Rightarrow> string" where
  "Join [] sep = []"
| "Join [x] sep = x"
| "Join (x # y # ys) sep = x @ sep @ Join (y # ys) sep"

section \<open>Data of ssmenv.go\<close>

text \<open>The error types of the package; \<open>'e\<close> is the error type of the AWS SDK.
  \<open>NilPointerPanic\<close> is not an error value of the package: it stands for the panic of
  \<open>res.InvalidParameters\<close> when a client hands back a nil output together with a nil
  error.\<close>

datatype 'e error =
    InvalidEnvVarFormatError string
  | ParameterNotFoundError string
  | GetParametersError 'e
  | InvalidParametersError "string list"
  | NullParameterError
  | NilPointerPanic

text \<open>The fields of the SDK's types that the package reads or writes. \<open>Name\<close> and
  \<open>Value\<close> are pointers in Go, \<open>None\<close> is nil.\<close>

record Parameter =
  Name :: "string option"
  Value :: "string option"

record GetParametersInput =
  Names :: "string list"
  WithDecryption :: "bool option"

record GetParametersOutput =
  Parameters :: "Parameter list"
  InvalidParameters :: "string list"

text \<open>The interface \<open>ssmClient\<close>: one method, from the input to the pair of an output
  pointer and an error. The context argument is only handed through and is left out.
  At most one call is made per run of \<open>ReplacedEnv\<close>, so a function of the input covers
  every client, stateful ones too.\<close>

type_synonym 'e ssmClient = "GetParametersInput \<Rightarrow> GetParametersOutput option \<times> 'e option"

text \<open>What a run does besides returning: the log line and the remote calls, in order.\<close>

datatype event =
    SlogInfo string string
  | GetParametersCall GetParametersInput

text \<open>A Go \<open>map[string]string\<close>: an association list with one pair per key. \<open>m[k] = v\<close>
  is \<open>AList.update k v m\<close>, \<open>m[k]\<close> with the comma-ok form is \<open>map_of m k\<close>, and the
  mapping the list stands for is \<open>map_of m\<close>.\<close>

type_synonym gomap = "(string \<times> string) list"

text \<open>\<open>for k, v := range m\<close> visits every key once, in an order the runtime chooses.
  The choice is a list of numbers: each one selects the next key among those not yet
  visited. Every list of numbers gives an order, and every order is given by one.\<close>

fun range_order :: "nat list \<Rightarrow> 'a list \<Rightarrow> 'a list" where
  "range_order seed [] = []"
| "range_order [] (k # ks) = k # ks"
| "range_order (n # seed) (k # ks) =
     (let i = n mod length (k # ks)
      in (k # ks) ! i # range_order seed (take i (k # ks) @ drop (Suc i) (k # ks)))"

section \<open>ssmenv.go\<close>

definition ssmPrefix :: string where
  "ssmPrefix = ''ssm://''"

text \<open>The loop of \<open>batchFetch\<close> over \<open>res.Parameters\<close>.\<close>

fun collect :: "Parameter list \<Rightarrow> gomap \<Rightarrow> 'e error + gomap" where
  "collect [] ret = Inr ret"
| "collect (p # ps) ret =
     (case Name p of
        None \<Rightarrow> Inl NullParameterError
      | Some n \<Rightarrow>
          (case Value p of
             None \<Rightarrow> Inl NullParameterError
           | Some v \<Rightarrow> collect ps (AList.update n v ret)))"

definition batchFetch :: "'e ssmClient \<Rightarrow> string list \<Rightarrow> ('e error + gomap) \<times> event list" where
  "batchFetch cli keys =
     (let input = \<lparr>Names = keys, WithDecryption = Some True\<rparr>;
          (res, err) = cli input
      in ((case err of
             Some e \<Rightarrow> Inl (GetParametersError e)
           | None \<Rightarrow>
               (case res of
                  None \<Rightarrow> Inl NilPointerPanic
                | Some r \<Rightarrow>
                    if length (InvalidParameters r) > 0
                    then Inl (InvalidParametersError (InvalidParameters r))
                    else collect (Parameters r) [])),
          [GetParametersCall input]))"

text \<open>The first loop of \<open>ReplacedEnv\<close>, over \<open>envs\<close>, with the two variables it
  updates.\<close>

fun scan_envs :: "string list \<Rightarrow> gomap \<Rightarrow> string list \<Rightarrow> 'e error + gomap \<times> string list" where
  "scan_envs [] orig ssmKeys = Inr (orig, ssmKeys)"
| "scan_envs (env # envs) orig ssmKeys =
     (let pair = SplitN2 env CHR ''=''
      in if length pair \<noteq> 2 then Inl (InvalidEnvVarFormatError env)
         else
           (let key = pair ! 0;
                value = pair ! 1
            in scan_envs envs (AList.update key value orig)
                 (if HasPrefix value ssmPrefix
                  then ssmKeys @ [TrimPrefix value ssmPrefix]
                  else ssmKeys)))"

text \<open>The second loop, over the keys of \<open>orig\<close> in the order the runtime chose. The
  value \<open>v\<close> is read when the key is reached; a key with no entry is not produced.\<close>

fun replace_loop :: "gomap \<Rightarrow> string list \<Rightarrow> gomap \<Rightarrow> 'e error + gomap" where
  "replace_loop ps [] orig = Inr orig"
| "replace_loop ps (k # ks) orig =
     (case map_of orig k of
        None \<Rightarrow> replace_loop ps ks orig
      | Some v \<Rightarrow>
          if HasPrefix v ssmPrefix
          then (let key = TrimPrefix v ssmPrefix
                in (case map_of ps key of
                      None \<Rightarrow> Inl (ParameterNotFoundError key)
                    | Some val \<Rightarrow> replace_loop ps ks (AList.update k val orig)))
          else replace_loop ps ks orig)"

text \<open>\<open>ReplacedEnv\<close> returns Go's pair of mapping and error as a sum, together with
  the events of the run. \<open>seed\<close> is the runtime's choice of iteration order.\<close>

definition ReplacedEnv ::
  "nat list \<Rightarrow> 'e ssmClient \<Rightarrow> string list \<Rightarrow> ('e error + gomap) \<times> event list" where
  "ReplacedEnv seed cli envs =
     (case scan_envs envs [] [] of
        Inl e \<Rightarrow> (Inl e, [])
      | Inr (orig, ssmKeys) \<Rightarrow>
          if length ssmKeys = 0 then (Inr orig, [])
          else
            (let log = [SlogInfo ''fetching SSM parameters'' (Join ssmKeys '','')];
                 (fetched, calls) = batchFetch cli ssmKeys
             in (case fetched of
                   Inl e \<Rightarrow> (Inl e, log @ calls)
                 | Inr ps \<Rightarrow>
                     (replace_loop ps (range_order seed (map fst orig)) orig, log @ calls))))"

section \<open>Notions used to state the properties\<close>

text \<open>The remote calls among the events of a run, in order.\<close>

fun fetch_calls :: "event list \<Rightarrow> GetParametersInput list" where
  "fetch_calls [] = []"
| "fetch_calls (SlogInfo msg keys # evs) = fetch_calls evs"
| "fetch_calls (GetParametersCall input # evs) = input # fetch_calls evs"

text \<open>An entry in the format \<open>KEY=VALUE\<close> of the doc comment of \<open>ReplacedEnv\<close>. A list
  of entries that all contain \<open>=\<close> is \<open>map env_entry kvs\<close> for pairs \<open>kvs\<close> whose keys
  are free of \<open>=\<close> (lemma \<open>entries_of_sep\<close> below), and the mapping such a list parses
  to, a later entry overriding an earlier one of the same key, is \<open>map_of (rev kvs)\<close>.\<close>

definition env_entry :: "string \<times> string \<Rightarrow> string" where
  "env_entry kv = fst kv @ ''='' @ snd kv"

text \<open>The parameter keys that the values carrying the marker refer to: one per such
  entry, in the order of the entries.\<close>

definition indirections :: "(string \<times> string) list \<Rightarrow> string list" where
  "indirections kvs =
     map (\<lambda>v. TrimPrefix v ssmPrefix) (filter (\<lambda>v. HasPrefix v ssmPrefix) (map snd kvs))"

text \<open>The assignments \<open>orig[key] = value\<close> of the first loop, one after the other.\<close>

definition store_all :: "(string \<times> string) list \<Rightarrow> gomap \<Rightarrow> gomap" where
  "store_all kvs orig = fold (\<lambda>kv. AList.update (fst kv) (snd kv)) kvs orig"

text \<open>Stand-in clients for concrete runs: one answers every call with the given
  parameters and no invalid name, the other reports the given names as invalid.\<close>

definition stubClient :: "(string \<times> string) list \<Rightarrow> unit ssmClient" where
  "stubClient params input =
     (Some \<lparr>Parameters = map (\<lambda>p. \<lparr>Name = Some (fst p), Value = Some (snd p)\<rparr>) params,
            InvalidParameters = []\<rparr>, None)"

definition stubInvalid :: "string list \<Rightarrow> unit ssmClient" where
  "stubInvalid names input = (Some \<lparr>Parameters = [], InvalidParameters = names\<rparr>, None)"

section \<open>Splitting an entry\<close>

lemma SplitN2_no_sep: "sep \<notin> set s \<Longrightarrow> SplitN2 s sep = [s]"
  by (simp add: SplitN2_def)

lemma SplitN2_first: "sep \<notin> set k \<Longrightarrow> SplitN2 (k @ sep # v) sep = [k, v]"
proof -
  assume k: "sep \<notin> set k"
  then have "takeWhile (\<lambda>c. c \<noteq> sep) (k @ sep # v) = k"
    by (induction k) auto
  moreover from k have "dropWhile (\<lambda>c. c \<noteq> sep) (k @ sep # v) = sep # v"
    by (induction k) auto
  ultimately show ?thesis by (simp add: SplitN2_def)
qed

lemma SplitN2_env_entry: "CHR ''='' \<notin> set (fst kv) \<Longrightarrow> SplitN2 (env_entry kv) CHR ''='' = [fst kv, snd kv]"
  using SplitN2_first [of "CHR ''=''" "fst kv" "snd kv"] by (simp add: env_entry_def)

lemma entry_of_sep:
  assumes "CHR ''='' \<in> set e"
  shows "\<exists>kv. e = env_entry kv \<and> CHR ''='' \<notin> set (fst kv)"
proof -
  from assms obtain k v where "e = k @ CHR ''='' # v" "CHR ''='' \<notin> set k"
    by (auto dest: split_list_first)
  then have "e = env_entry (k, v) \<and> CHR ''='' \<notin> set (fst (k, v))"
    by (simp add: env_entry_def)
  then show ?thesis by blast
qed

lemma entries_of_sep:
  "\<forall>e\<in>set envs. CHR ''='' \<in> set e \<Longrightarrow>
   \<exists>kvs. envs = map env_entry kvs \<and> (\<forall>kv\<in>set kvs. CHR ''='' \<notin> set (fst kv))"
proof (induction envs)
  case Nil
  then show ?case by simp
next
  case (Cons e envs)
  then obtain kvs where kvs: "envs = map env_entry kvs" "\<forall>kv\<in>set kvs. CHR ''='' \<notin> set (fst kv)"
    by auto
  from Cons.prems obtain kv where kv: "e = env_entry kv" "CHR ''='' \<notin> set (fst kv)"
    using entry_of_sep [of e] by auto
  from kvs kv have "e # envs = map env_entry (kv # kvs) \<and> (\<forall>x\<in>set (kv # kvs). CHR ''='' \<notin> set (fst x))"
    by simp
  then show ?case by (rule exI)
qed

lemma env_entry_sep: "CHR ''='' \<in> set (env_entry kv)"
  by (simp add: env_entry_def)

lemma scan_envs_entries:
  "\<forall>kv\<in>set kvs. CHR ''='' \<notin> set (fst kv) \<Longrightarrow>
   scan_envs (map env_entry kvs) orig ssmKeys = Inr (store_all kvs orig, ssmKeys @ indirections kvs)"
proof (induction kvs arbitrary: orig ssmKeys)
  case Nil
  then show ?case by (simp add: store_all_def indirections_def)
next
  case (Cons kv kvs)
  then have split: "SplitN2 (env_entry kv) CHR ''='' = [fst kv, snd kv]"
    by (simp add: SplitN2_env_entry)
  from Cons show ?case
    by (simp add: split store_all_def indirections_def Let_def)
qed

lemma scan_envs_bad:
  "CHR ''='' \<notin> set bad \<Longrightarrow> \<forall>e\<in>set pre. CHR ''='' \<in> set e \<Longrightarrow>
   scan_envs (pre @ bad # post) orig ssmKeys = Inl (InvalidEnvVarFormatError bad)"
proof (induction pre arbitrary: orig ssmKeys)
  case Nil
  then show ?case by (simp add: SplitN2_no_sep)
next
  case (Cons e pre)
  then have "length (SplitN2 e CHR ''='') = 2"
    by (simp add: SplitN2_def)
  with Cons show ?case by (simp add: Let_def)
qed

lemma scan_envs_Inr_sep:
  assumes ok: "scan_envs envs orig ssmKeys = (Inr r :: 'e error + gomap \<times> string list)"
  shows "\<forall>e\<in>set envs. CHR ''='' \<in> set e"
proof (rule ccontr)
  assume "\<not> (\<forall>e\<in>set envs. CHR ''='' \<in> set e)"
  then obtain pre bad post where "envs = pre @ bad # post" "CHR ''='' \<notin> set bad"
    "\<forall>e\<in>set pre. CHR ''='' \<in> set e"
    using split_list_first_prop [of envs "\<lambda>e. CHR ''='' \<notin> set e"] by auto
  then have "scan_envs envs orig ssmKeys = (Inl (InvalidEnvVarFormatError bad) :: 'e error + gomap \<times> string list)"
    by (simp add: scan_envs_bad)
  with ok show False by simp
qed

lemma map_of_store_all: "map_of (store_all kvs orig) = map_of orig ++ map_of (rev kvs)"
  by (induction kvs arbitrary: orig) (simp_all add: store_all_def update_conv' map_add_upd_left fun_eq_iff map_add_def split: option.splits)

lemma distinct_store_all: "distinct (map fst orig) \<Longrightarrow> distinct (map fst (store_all kvs orig))"
  by (induction kvs arbitrary: orig) (simp_all add: store_all_def distinct_update)

lemma keys_store_all: "fst ` set (store_all kvs orig) = fst ` set orig \<union> fst ` set kvs"
  by (induction kvs arbitrary: orig) (auto simp add: store_all_def dom_update)

lemma mset_range_order: "mset (range_order seed ks) = mset ks"
proof (induction seed ks rule: range_order.induct)
  case (3 n seed k ks)
  define i where "i = n mod length (k # ks)"
  have i: "i < length (k # ks)" by (simp add: i_def)
  let ?rest = "take i (k # ks) @ drop (Suc i) (k # ks)"
  have unfold: "range_order (n # seed) (k # ks) = (k # ks) ! i # range_order seed ?rest"
    by (simp add: Let_def i_def)
  have "k # ks = take i (k # ks) @ (k # ks) ! i # drop (Suc i) (k # ks)"
    using i by (rule id_take_nth_drop)
  then have "mset (k # ks) = mset (take i (k # ks) @ (k # ks) ! i # drop (Suc i) (k # ks))"
    by simp
  also have "\<dots> = add_mset ((k # ks) ! i) (mset ?rest)"
    by simp
  finally have whole: "mset (k # ks) = add_mset ((k # ks) ! i) (mset ?rest)" .
  have "mset (range_order seed ?rest) = mset ?rest"
    using 3 [OF i_def] .
  then show ?case
    unfolding unfold whole by simp
qed simp_all

lemma set_range_order: "set (range_order seed ks) = set ks"
  using mset_range_order [of seed ks] by (rule mset_eq_setD)

lemma distinct_range_order: "distinct (range_order seed ks) = distinct ks"
  using mset_range_order [of seed ks] by (rule mset_eq_imp_distinct_iff)

section \<open>The second loop and the fetch\<close>

lemma replace_loop_keys:
  "replace_loop ps ks orig = (Inr m :: 'e error + gomap) \<Longrightarrow> map fst m = map fst orig"
proof (induction ks arbitrary: orig)
  case Nil
  then show ?case by simp
next
  case (Cons k ks)
  show ?case
  proof (cases "map_of orig k")
    case None
    with Cons show ?thesis by simp
  next
    case (Some v)
    then have mem: "k \<in> set (map fst orig)"
      by (auto dest: map_of_SomeD intro: rev_image_eqI)
    show ?thesis
    proof (cases "HasPrefix v ssmPrefix")
      case False
      with Some Cons show ?thesis by simp
    next
      case True
      with Some Cons.prems obtain val where
        val: "map_of ps (TrimPrefix v ssmPrefix) = Some val"
        and rest: "replace_loop ps ks (AList.update k val orig) = (Inr m :: 'e error + gomap)"
        by (auto simp: Let_def split: option.splits)
      from Cons.IH [OF rest] mem show ?thesis
        by (simp add: update_keys)
    qed
  qed
qed

lemma replace_loop_lookup:
  "distinct ks \<Longrightarrow> replace_loop ps ks orig = (Inr m :: 'e error + gomap) \<Longrightarrow>
   map_of m k =
     (if k \<in> set ks
      then (case map_of orig k of
              None \<Rightarrow> None
            | Some v \<Rightarrow>
                if HasPrefix v ssmPrefix then map_of ps (TrimPrefix v ssmPrefix) else Some v)
      else map_of orig k)"
proof (induction ks arbitrary: orig)
  case Nil
  then show ?case by simp
next
  case (Cons x ks)
  from Cons.prems have dist: "distinct ks" and fresh: "x \<notin> set ks" by simp_all
  show ?case
  proof (cases "map_of orig x")
    case None
    with Cons.prems have "replace_loop ps ks orig = (Inr m :: 'e error + gomap)" by simp
    from Cons.IH [OF dist this] None show ?thesis by auto
  next
    case (Some v)
    show ?thesis
    proof (cases "HasPrefix v ssmPrefix")
      case False
      with Some Cons.prems have "replace_loop ps ks orig = (Inr m :: 'e error + gomap)" by simp
      from Cons.IH [OF dist this] Some False show ?thesis by auto
    next
      case True
      with Some Cons.prems obtain val where
        val: "map_of ps (TrimPrefix v ssmPrefix) = Some val"
        and rest: "replace_loop ps ks (AList.update x val orig) = (Inr m :: 'e error + gomap)"
        by (auto simp: Let_def split: option.splits)
      from Cons.IH [OF dist rest] Some True val fresh show ?thesis
        by (auto simp: update_conv')
    qed
  qed
qed

lemma replace_loop_Inl:
  "distinct ks \<Longrightarrow> replace_loop ps ks orig = Inl e \<Longrightarrow>
   \<exists>k v. k \<in> set ks \<and> map_of orig k = Some v \<and> HasPrefix v ssmPrefix \<and>
         map_of ps (TrimPrefix v ssmPrefix) = None \<and>
         e = ParameterNotFoundError (TrimPrefix v ssmPrefix)"
proof (induction ks arbitrary: orig)
  case Nil
  then show ?case by simp
next
  case (Cons x ks)
  from Cons.prems have dist: "distinct ks" and fresh: "x \<notin> set ks" by simp_all
  show ?case
  proof (cases "map_of orig x")
    case None
    with Cons.prems have "replace_loop ps ks orig = Inl e" by simp
    from Cons.IH [OF dist this] show ?thesis by auto
  next
    case (Some v)
    show ?thesis
    proof (cases "HasPrefix v ssmPrefix")
      case False
      with Some Cons.prems have "replace_loop ps ks orig = Inl e" by simp
      from Cons.IH [OF dist this] show ?thesis by auto
    next
      case True
      show ?thesis
      proof (cases "map_of ps (TrimPrefix v ssmPrefix)")
        case None
        with Some True Cons.prems have "e = ParameterNotFoundError (TrimPrefix v ssmPrefix)"
          by (simp add: Let_def)
        with Some True None show ?thesis by auto
      next
        case (Some val)
        with \<open>map_of orig x = Some v\<close> True Cons.prems
        have "replace_loop ps ks (AList.update x val orig) = Inl e"
          by (simp add: Let_def)
        from Cons.IH [OF dist this] obtain k w where
          k: "k \<in> set ks" "map_of (AList.update x val orig) k = Some w"
             "HasPrefix w ssmPrefix" "map_of ps (TrimPrefix w ssmPrefix) = None"
             "e = ParameterNotFoundError (TrimPrefix w ssmPrefix)"
          by blast
        from k(1) fresh have "k \<noteq> x" by auto
        with k(2) have "map_of orig k = Some w" by (simp add: update_conv')
        with k show ?thesis by auto
      qed
    qed
  qed
qed

lemma snd_batchFetch:
  "snd (batchFetch cli keys) = [GetParametersCall \<lparr>Names = keys, WithDecryption = Some True\<rparr>]"
  by (simp add: batchFetch_def Let_def split: prod.splits)

lemma batchFetch_invalid:
  "cli \<lparr>Names = keys, WithDecryption = Some True\<rparr> = (Some out, None) \<Longrightarrow>
   InvalidParameters out \<noteq> [] \<Longrightarrow>
   fst (batchFetch cli keys) = Inl (InvalidParametersError (InvalidParameters out))"
  by (simp add: batchFetch_def Let_def)

lemma ReplacedEnv_entries:
  assumes "\<forall>kv\<in>set kvs. CHR ''='' \<notin> set (fst kv)"
  shows "ReplacedEnv seed cli (map env_entry kvs) =
     (if indirections kvs = [] then (Inr (store_all kvs []), [])
      else
        ((case fst (batchFetch cli (indirections kvs)) of
            Inl e \<Rightarrow> Inl e
          | Inr ps \<Rightarrow>
              replace_loop ps (range_order seed (map fst (store_all kvs []))) (store_all kvs [])),
         [SlogInfo ''fetching SSM parameters'' (Join (indirections kvs) '',''),
          GetParametersCall \<lparr>Names = indirections kvs, WithDecryption = Some True\<rparr>]))"
proof -
  have scan: "scan_envs (map env_entry kvs) [] [] = Inr (store_all kvs [], indirections kvs)"
    using scan_envs_entries [OF assms, of "[]" "[]"] by simp
  obtain fetched calls where bf: "batchFetch cli (indirections kvs) = (fetched, calls)"
    by (cases "batchFetch cli (indirections kvs)")
  with snd_batchFetch [of cli "indirections kvs"]
  have calls: "calls = [GetParametersCall \<lparr>Names = indirections kvs, WithDecryption = Some True\<rparr>]"
    by simp
  show ?thesis
    unfolding ReplacedEnv_def scan
    by (simp add: bf calls split: sum.splits)
qed

section \<open>Runs of \<open>ReplacedEnv\<close> on well-formed entries\<close>

lemma indirections_Nil_iff:
  "indirections kvs = [] \<longleftrightarrow> (\<forall>kv\<in>set kvs. \<not> HasPrefix (snd kv) ssmPrefix)"
  by (auto simp: indirections_def filter_empty_conv)

lemma set_indirections:
  "set (indirections kvs) =
     (\<lambda>v. TrimPrefix v ssmPrefix) ` {v \<in> snd ` set kvs. HasPrefix v ssmPrefix}"
  by (auto simp: indirections_def)

lemma map_of_store_all_empty: "map_of (store_all kvs []) = map_of (rev kvs)"
  by (simp add: map_of_store_all)

lemma distinct_store_all_empty: "distinct (map fst (store_all kvs []))"
  by (simp add: distinct_store_all)

lemma ReplacedEnv_Inr_cases:
  assumes wf: "\<forall>kv\<in>set kvs. CHR ''='' \<notin> set (fst kv)"
    and run: "ReplacedEnv seed cli (map env_entry kvs) = (Inr m :: 'e error + gomap, tr)"
  shows "(indirections kvs = [] \<and> m = store_all kvs [] \<and> tr = []) \<or>
         (indirections kvs \<noteq> [] \<and>
          (\<exists>ps. fst (batchFetch cli (indirections kvs)) = Inr ps \<and>
            replace_loop ps (range_order seed (map fst (store_all kvs []))) (store_all kvs [])
              = (Inr m :: 'e error + gomap)))"
proof (cases "indirections kvs = []")
  case True
  with run show ?thesis by (simp add: ReplacedEnv_entries [OF wf])
next
  case False
  with run show ?thesis
    by (cases "fst (batchFetch cli (indirections kvs))") (simp_all add: ReplacedEnv_entries [OF wf])
qed

lemma ReplacedEnv_keys:
  assumes wf: "\<forall>kv\<in>set kvs. CHR ''='' \<notin> set (fst kv)"
    and run: "ReplacedEnv seed cli (map env_entry kvs) = (Inr m :: 'e error + gomap, tr)"
  shows "map fst m = map fst (store_all kvs [])"
  using ReplacedEnv_Inr_cases [OF wf run] by (auto dest: replace_loop_keys)

lemma ReplacedEnv_lookup:
  assumes wf: "\<forall>kv\<in>set kvs. CHR ''='' \<notin> set (fst kv)"
    and run: "ReplacedEnv seed cli (map env_entry kvs) = (Inr m :: 'e error + gomap, tr)"
    and last: "map_of (rev kvs) k = Some v"
  shows "if HasPrefix v ssmPrefix
         then \<exists>ps val. fst (batchFetch cli (indirections kvs)) = Inr ps \<and>
                map_of ps (TrimPrefix v ssmPrefix) = Some val \<and> map_of m k = Some val
         else map_of m k = Some v"
proof -
  let ?orig = "store_all kvs []"
  have orig_k: "map_of ?orig k = Some v"
    using last by (simp add: map_of_store_all_empty)
  then have k_key: "k \<in> set (map fst ?orig)"
    by (auto dest: map_of_SomeD intro: rev_image_eqI)
  from last have v_mem: "v \<in> snd ` set kvs"
    by (auto dest!: map_of_SomeD intro: rev_image_eqI)
  from ReplacedEnv_Inr_cases [OF wf run] show ?thesis
  proof
    assume none: "indirections kvs = [] \<and> m = ?orig \<and> tr = []"
    with v_mem have "\<not> HasPrefix v ssmPrefix"
      by (auto simp: indirections_Nil_iff)
    with none orig_k show ?thesis by simp
  next
    assume "indirections kvs \<noteq> [] \<and>
          (\<exists>ps. fst (batchFetch cli (indirections kvs)) = Inr ps \<and>
            replace_loop ps (range_order seed (map fst ?orig)) ?orig = (Inr m :: 'e error + gomap))"
    then obtain ps where ps: "fst (batchFetch cli (indirections kvs)) = Inr ps"
      and loop: "replace_loop ps (range_order seed (map fst ?orig)) ?orig = (Inr m :: 'e error + gomap)"
      by blast
    have dist: "distinct (range_order seed (map fst ?orig))"
      by (simp add: distinct_range_order distinct_store_all_empty)
    have visited: "k \<in> set (range_order seed (map fst ?orig))"
      using k_key by (simp add: set_range_order)
    have look: "map_of m k =
        (if HasPrefix v ssmPrefix then map_of ps (TrimPrefix v ssmPrefix) else Some v)"
      using replace_loop_lookup [OF dist loop, of k] visited orig_k by simp
    have "k \<in> set (map fst m)"
      using replace_loop_keys [OF loop] k_key by simp
    then have "map_of m k \<noteq> None"
      by (simp add: map_of_eq_None_iff)
    with look ps show ?thesis by auto
  qed
qed

text \<open>
  Every order of the keys is the choice of some seed, so a property proved for all seeds
  holds for every order in which the runtime may visit the map.
\<close>

lemma range_order_complete:
  "mset p = mset ks \<Longrightarrow> \<exists>seed. range_order seed ks = p"
proof (induction p arbitrary: ks)
  case Nil
  then have "ks = []" by simp
  then show ?case by simp
next
  case (Cons x p)
  then have "x \<in> set ks" by (metis list.set_intros(1) mset_eq_setD)
  then obtain i where i: "i < length ks" "ks ! i = x"
    by (auto simp: in_set_conv_nth)
  let ?rest = "take i ks @ drop (Suc i) ks"
  have "ks = take i ks @ x # drop (Suc i) ks"
    using id_take_nth_drop [OF i(1)] i(2) by simp
  then have "mset ks = add_mset x (mset ?rest)"
    by (metis mset.simps(2) mset_append union_mset_add_mset_right)
  with Cons.prems have "mset p = mset ?rest" by simp
  from Cons.IH [OF this] obtain seed where seed: "range_order seed ?rest = p" by blast
  from i(1) obtain k ks' where ks: "ks = k # ks'" by (cases ks) auto
  from i have "range_order (i # seed) ks = x # range_order seed ?rest"
    unfolding ks by (simp add: Let_def)
  with seed show ?case by blast
qed

text \<open>
  When no returned parameter has a nil name or value, the result of the fetch is the
  mapping from the returned names to the returned values, a later parameter overriding
  an earlier one of the same name.
\<close>

lemma collect_present:
  "collect (map (\<lambda>p. \<lparr>Name = Some (fst p), Value = Some (snd p)\<rparr>) params) ret =
     Inr (store_all params ret)"
  by (induction params arbitrary: ret) (simp_all add: store_all_def)

text \<open>
  A run that returns a mapping was given well-formed entries only.
\<close>

lemma ReplacedEnv_Inr_entries:
  assumes "ReplacedEnv seed cli envs = (Inr m :: 'e error + gomap, tr)"
  shows "\<exists>kvs. envs = map env_entry kvs \<and> (\<forall>kv\<in>set kvs. CHR ''='' \<notin> set (fst kv))"
proof (cases "scan_envs envs [] [] :: 'e error + gomap \<times> string list")
  case (Inl e)
  with assms show ?thesis by (simp add: ReplacedEnv_def)
next
  case (Inr res)
  then have "\<forall>e\<in>set envs. CHR ''='' \<in> set e" by (rule scan_envs_Inr_sep)
  then show ?thesis by (rule entries_of_sep)
qed

text \<open>
  The remote calls of a run on well-formed entries.
\<close>

lemma fetch_calls_ReplacedEnv:
  assumes wf: "\<forall>kv\<in>set kvs. CHR ''='' \<notin> set (fst kv)"
  shows "fetch_calls (snd (ReplacedEnv seed cli (map env_entry kvs))) =
     (if indirections kvs = [] then []
      else [\<lparr>Names = indirections kvs, WithDecryption = Some True\<rparr>])"
  by (simp add: ReplacedEnv_entries [OF wf])

text \<open>
  When the fetch succeeds and the parsed input still has, under some key, a value with
  the marker whose parameter key the fetch result does not map, the second loop stops at
  such a value, whichever key it visits first.
\<close>

lemma ReplacedEnv_missing:
  assumes wf: "\<forall>kv\<in>set kvs. CHR ''='' \<notin> set (fst kv)"
    and fetch: "fst (batchFetch cli (indirections kvs)) = (Inr ps :: 'e error + gomap)"
    and last: "map_of (rev kvs) k = Some v"
    and marked: "HasPrefix v ssmPrefix"
    and missing: "map_of ps (TrimPrefix v ssmPrefix) = None"
  shows "\<exists>k' v'. map_of (rev kvs) k' = Some v' \<and> HasPrefix v' ssmPrefix \<and>
           map_of ps (TrimPrefix v' ssmPrefix) = None \<and>
           fst (ReplacedEnv seed cli (map env_entry kvs)) =
             (Inl (ParameterNotFoundError (TrimPrefix v' ssmPrefix)) :: 'e error + gomap)"
proof -
  let ?orig = "store_all kvs []"
  let ?ks = "range_order seed (map fst ?orig)"
  from last have "v \<in> snd ` set kvs"
    by (auto dest!: map_of_SomeD intro: rev_image_eqI)
  with marked have some: "indirections kvs \<noteq> []"
    by (auto simp: indirections_Nil_iff)
  with fetch have run: "fst (ReplacedEnv seed cli (map env_entry kvs)) = replace_loop ps ?ks ?orig"
    by (simp add: ReplacedEnv_entries [OF wf])
  have dist: "distinct ?ks"
    by (simp add: distinct_range_order distinct_store_all_empty)
  have orig_k: "map_of ?orig k = Some v"
    using last by (simp add: map_of_store_all_empty)
  then have k_key: "k \<in> set (map fst ?orig)"
    by (auto dest: map_of_SomeD intro: rev_image_eqI)
  show ?thesis
  proof (cases "replace_loop ps ?ks ?orig :: 'e error + gomap")
    case (Inr m)
    have "map_of m k = None"
      using replace_loop_lookup [OF dist Inr, of k] k_key orig_k marked missing
      by (simp add: set_range_order)
    moreover have "k \<in> set (map fst m)"
      using replace_loop_keys [OF Inr] k_key by simp
    ultimately show ?thesis by (simp add: map_of_eq_None_iff)
  next
    case (Inl e)
    from replace_loop_Inl [OF dist Inl] obtain k' v' where
      "map_of ?orig k' = Some v'" "HasPrefix v' ssmPrefix"
      "map_of ps (TrimPrefix v' ssmPrefix) = None"
      "e = ParameterNotFoundError (TrimPrefix v' ssmPrefix)"
      by blast
    with run Inl show ?thesis
      by (auto simp: map_of_store_all_empty)
  qed
qed

text \<open>
  When the fetch succeeds with a result that maps the parameter key of every value with
  the marker in the parsed input, the second loop runs to its end and a mapping is
  returned.
\<close>

lemma ReplacedEnv_returns:
  assumes wf: "\<forall>kv\<in>set kvs. CHR ''='' \<notin> set (fst kv)"
    and fetch: "fst (batchFetch cli (indirections kvs)) = (Inr ps :: 'e error + gomap)"
    and present: "\<forall>k v. map_of (rev kvs) k = Some v \<and> HasPrefix v ssmPrefix \<longrightarrow>
                   map_of ps (TrimPrefix v ssmPrefix) \<noteq> None"
  shows "\<exists>m tr. ReplacedEnv seed cli (map env_entry kvs) = (Inr m :: 'e error + gomap, tr)"
proof (cases "indirections kvs = []")
  case True
  then show ?thesis by (simp add: ReplacedEnv_entries [OF wf])
next
  case False
  let ?orig = "store_all kvs []"
  let ?ks = "range_order seed (map fst ?orig)"
  have dist: "distinct ?ks"
    by (simp add: distinct_range_order distinct_store_all_empty)
  show ?thesis
  proof (cases "replace_loop ps ?ks ?orig :: 'e error + gomap")
    case (Inr m)
    with False fetch show ?thesis by (simp add: ReplacedEnv_entries [OF wf])
  next
    case (Inl e)
    from replace_loop_Inl [OF dist Inl] obtain k v where
      kv: "map_of ?orig k = Some v" "HasPrefix v ssmPrefix"
      and gone: "map_of ps (TrimPrefix v ssmPrefix) = None"
      by blast
    from kv have "map_of (rev kvs) k = Some v \<and> HasPrefix v ssmPrefix"
      by (simp add: map_of_store_all_empty)
    with present have "map_of ps (TrimPrefix v ssmPrefix) \<noteq> None" by blast
    with gone show ?thesis by simp
  qed
qed

section \<open>The claims\<close>

text \<open>
  C1, as the code has it. On a list of well-formed entries with at least one value that
  begins with \<open>ssm://\<close>, \<open>ReplacedEnv\<close> issues exactly one remote call. The names passed
  to it are the parameter keys of the values carrying the marker, in the order of the
  entries and one per such entry: a key that several entries refer to is passed as often
  as it is referred to. As a set the names are exactly the parameter keys referred to.
\<close>

theorem ReplacedEnv_one_fetch:
  assumes wf: "\<forall>kv\<in>set kvs. CHR ''='' \<notin> set (fst kv)"
    and marked: "kv \<in> set kvs" "HasPrefix (snd kv) ssmPrefix"
  shows "fetch_calls (snd (ReplacedEnv seed cli (map env_entry kvs))) =
           [\<lparr>Names = indirections kvs, WithDecryption = Some True\<rparr>] \<and>
         set (indirections kvs) =
           (\<lambda>v. TrimPrefix v ssmPrefix) ` {v \<in> snd ` set kvs. HasPrefix v ssmPrefix} \<and>
         length (indirections kvs) = length (filter (\<lambda>kv. HasPrefix (snd kv) ssmPrefix) kvs)"
proof -
  from marked have "indirections kvs \<noteq> []"
    by (auto simp: indirections_Nil_iff)
  then have "fetch_calls (snd (ReplacedEnv seed cli (map env_entry kvs))) =
           [\<lparr>Names = indirections kvs, WithDecryption = Some True\<rparr>]"
    by (simp add: fetch_calls_ReplacedEnv [OF wf])
  moreover have "length (indirections kvs) = length (filter (\<lambda>kv. HasPrefix (snd kv) ssmPrefix) kvs)"
    by (simp add: indirections_def filter_map comp_def)
  ultimately show ?thesis by (simp add: set_indirections)
qed

theorem ReplacedEnv_one_fetch_witness:
  "fetch_calls (snd (ReplacedEnv [1] (stubClient [(''x'', ''s''), (''y'', ''t'')])
      [''A=ssm://x'', ''B=1'', ''C=ssm://y'', ''D=ssm://x''])) =
     [\<lparr>Names = [''x'', ''y'', ''x''], WithDecryption = Some True\<rparr>]"
proof -
  let ?kvs = "[(''A'', ''ssm://x''), (''B'', ''1''), (''C'', ''ssm://y''), (''D'', ''ssm://x'')]"
  have wf: "\<forall>kv\<in>set ?kvs. CHR ''='' \<notin> set (fst kv)" by simp
  have mem: "(''A'', ''ssm://x'') \<in> set ?kvs" by simp
  have marked: "HasPrefix (snd (''A'', ''ssm://x'')) ssmPrefix"
    by (simp add: HasPrefix_def ssmPrefix_def)
  from ReplacedEnv_one_fetch [OF wf mem marked, of "[1]" "stubClient [(''x'', ''s''), (''y'', ''t'')]"]
  show ?thesis
    by (simp add: env_entry_def indirections_def HasPrefix_def TrimPrefix_def ssmPrefix_def)
qed

text \<open>
  C1 as stated asks for the names with duplicates collapsed. Two entries that refer to
  the same parameter \<open>x\<close> make the one call carry \<open>x\<close> twice.
\<close>

theorem ReplacedEnv_duplicate_names_counterexample:
  "fetch_calls (snd (ReplacedEnv [] (stubClient [(''x'', ''s'')]) [''A=ssm://x'', ''B=ssm://x''])) =
     [\<lparr>Names = [''x'', ''x''], WithDecryption = Some True\<rparr>] \<and>
   \<not> distinct [''x'', ''x'']"
  by (simp add: ReplacedEnv_def batchFetch_def stubClient_def SplitN2_def HasPrefix_def
      TrimPrefix_def ssmPrefix_def Let_def)

text \<open>
  C2. For a list of well-formed entries, every mapping that \<open>ReplacedEnv\<close> returns has
  the keys of the input, and for every key \<open>k\<close> with value \<open>v\<close> in the parsed input
  (\<open>map_of (rev kvs)\<close>): if \<open>v\<close> does not begin with \<open>ssm://\<close> the mapping keeps \<open>v\<close>
  under \<open>k\<close>; if it does, the fetch succeeded with a result \<open>ps\<close> and the mapping has
  under \<open>k\<close> the value that \<open>ps\<close> gives for \<open>v\<close> stripped of the marker. And a mapping
  is returned whenever the fetch succeeds with a result that maps the stripped value of
  every such \<open>v\<close>. The witness is the run of the specification's example, \<open>A=1\<close> and
  \<open>B=ssm://path/to/x\<close> with a client that returns \<open>secret\<close> for \<open>path/to/x\<close>.
\<close>

theorem ReplacedEnv_splices:
  assumes wf: "\<forall>kv\<in>set kvs. CHR ''='' \<notin> set (fst kv)"
  shows "(\<forall>m tr. ReplacedEnv seed cli (map env_entry kvs) = (Inr m :: 'e error + gomap, tr) \<longrightarrow>
            fst ` set m = fst ` set kvs \<and>
            (\<forall>k v. map_of (rev kvs) k = Some v \<longrightarrow>
               (if HasPrefix v ssmPrefix
                then \<exists>ps val. fst (batchFetch cli (indirections kvs)) = Inr ps \<and>
                       map_of ps (TrimPrefix v ssmPrefix) = Some val \<and> map_of m k = Some val
                else map_of m k = Some v))) \<and>
         (\<forall>ps. fst (batchFetch cli (indirections kvs)) = (Inr ps :: 'e error + gomap) \<and>
               (\<forall>k v. map_of (rev kvs) k = Some v \<and> HasPrefix v ssmPrefix \<longrightarrow>
                  map_of ps (TrimPrefix v ssmPrefix) \<noteq> None) \<longrightarrow>
               (\<exists>m tr. ReplacedEnv seed cli (map env_entry kvs) = (Inr m :: 'e error + gomap, tr)))"
proof (intro conjI allI impI)
  fix m tr
  assume run: "ReplacedEnv seed cli (map env_entry kvs) = (Inr m :: 'e error + gomap, tr)"
  have "set (map fst m) = set (map fst (store_all kvs []))"
    using ReplacedEnv_keys [OF wf run] by simp
  then show "fst ` set m = fst ` set kvs"
    by (simp add: keys_store_all)
next
  fix m tr k v
  assume "ReplacedEnv seed cli (map env_entry kvs) = (Inr m :: 'e error + gomap, tr)"
    and "map_of (rev kvs) k = Some v"
  with wf show "if HasPrefix v ssmPrefix
                then \<exists>ps val. fst (batchFetch cli (indirections kvs)) = Inr ps \<and>
                       map_of ps (TrimPrefix v ssmPrefix) = Some val \<and> map_of m k = Some val
                else map_of m k = Some v"
    by (rule ReplacedEnv_lookup)
next
  fix ps
  assume "fst (batchFetch cli (indirections kvs)) = (Inr ps :: 'e error + gomap) \<and>
               (\<forall>k v. map_of (rev kvs) k = Some v \<and> HasPrefix v ssmPrefix \<longrightarrow>
                  map_of ps (TrimPrefix v ssmPrefix) \<noteq> None)"
  then show "\<exists>m tr. ReplacedEnv seed cli (map env_entry kvs) = (Inr m :: 'e error + gomap, tr)"
    using ReplacedEnv_returns [OF wf] by blast
qed

theorem ReplacedEnv_splices_witness:
  "ReplacedEnv [] (stubClient [(''path/to/x'', ''secret'')]) [''A=1'', ''B=ssm://path/to/x''] =
     (Inr [(''A'', ''1''), (''B'', ''secret'')],
      [SlogInfo ''fetching SSM parameters'' ''path/to/x'',
       GetParametersCall \<lparr>Names = [''path/to/x''], WithDecryption = Some True\<rparr>]) \<and>
   fst ` set [(''A'', ''1''), (''B'', ''secret'')] = {''A'', ''B''} \<and>
   map_of [(''A'', ''1''), (''B'', ''secret'')] ''A'' = Some ''1'' \<and>
   map_of [(''A'', ''1''), (''B'', ''secret'')] ''B'' = Some ''secret''"
proof -
  let ?kvs = "[(''A'', ''1''), (''B'', ''ssm://path/to/x'')]"
  let ?cli = "stubClient [(''path/to/x'', ''secret'')]"
  let ?m = "[(''A'', ''1''), (''B'', ''secret'')]"
  let ?tr = "[SlogInfo ''fetching SSM parameters'' ''path/to/x'',
       GetParametersCall \<lparr>Names = [''path/to/x''], WithDecryption = Some True\<rparr>]"
  have wf: "\<forall>kv\<in>set ?kvs. CHR ''='' \<notin> set (fst kv)" by simp
  have fetched: "fst (batchFetch ?cli (indirections ?kvs)) = Inr [(''path/to/x'', ''secret'')]"
    by (simp add: batchFetch_def stubClient_def)
  have marked: "HasPrefix ''ssm://path/to/x'' ssmPrefix" "\<not> HasPrefix ''1'' ssmPrefix"
    by (simp_all add: HasPrefix_def ssmPrefix_def)
  have strip: "TrimPrefix ''ssm://path/to/x'' ssmPrefix = ''path/to/x''"
    by (simp add: TrimPrefix_def HasPrefix_def ssmPrefix_def)
  note both = ReplacedEnv_splices [where 'e = unit, OF wf, of "[]" ?cli]
  have present: "\<forall>k v. map_of (rev ?kvs) k = Some v \<and> HasPrefix v ssmPrefix \<longrightarrow>
      map_of [(''path/to/x'', ''secret'')] (TrimPrefix v ssmPrefix) \<noteq> None"
    using strip marked by (auto split: if_splits)
  from both fetched present obtain m tr where
    run: "ReplacedEnv [] ?cli (map env_entry ?kvs) = (Inr m, tr)"
    by blast
  from both run have keys: "fst ` set m = fst ` set ?kvs"
    and vals: "\<forall>k v. map_of (rev ?kvs) k = Some v \<longrightarrow>
               (if HasPrefix v ssmPrefix
                then \<exists>ps val. fst (batchFetch ?cli (indirections ?kvs)) = Inr ps \<and>
                       map_of ps (TrimPrefix v ssmPrefix) = Some val \<and> map_of m k = Some val
                else map_of m k = Some v)"
    by blast+
  from vals marked have a: "map_of m ''A'' = Some ''1''" by simp
  have "map_of (rev ?kvs) ''B'' = Some ''ssm://path/to/x''" by simp
  with vals have "if HasPrefix ''ssm://path/to/x'' ssmPrefix
                then \<exists>ps val. fst (batchFetch ?cli (indirections ?kvs)) = Inr ps \<and>
                       map_of ps (TrimPrefix ''ssm://path/to/x'' ssmPrefix) = Some val \<and>
                       map_of m ''B'' = Some val
                else map_of m ''B'' = Some ''ssm://path/to/x''"
    by blast
  with marked fetched strip have b: "map_of m ''B'' = Some ''secret''" by simp
  have concrete: "ReplacedEnv [] ?cli (map env_entry ?kvs) = (Inr ?m, ?tr)"
    by (simp add: env_entry_def ReplacedEnv_def batchFetch_def stubClient_def SplitN2_def
        HasPrefix_def TrimPrefix_def ssmPrefix_def)
  with run have "m = ?m" by simp
  with keys a b concrete show ?thesis by (simp add: env_entry_def)
qed

text \<open>
  C3, as the code has it. Let \<open>ReplacedEnv\<close> return the mapping \<open>m\<close>, and let no value of
  \<open>m\<close> begin with \<open>ssm://\<close>. Serialise \<open>m\<close> as \<open>KEY=VALUE\<close> entries in any order
  (\<open>kvs'\<close> is any arrangement of the pairs of \<open>m\<close>). A second run on these entries, with
  any client and any iteration order, returns the same mapping and calls no client.
\<close>

theorem ReplacedEnv_rerun_without_marker:
  assumes run: "ReplacedEnv seed cli envs = (Inr m :: 'e error + gomap, tr)"
    and plain: "\<forall>kv\<in>set m. \<not> HasPrefix (snd kv) ssmPrefix"
    and again: "mset kvs' = mset m"
  shows "\<exists>m'. ReplacedEnv seed' cli' (map env_entry kvs') = (Inr m' :: 'f error + gomap, []) \<and>
              map_of m' = map_of m"
proof -
  from ReplacedEnv_Inr_entries [OF run] obtain kvs where envs: "envs = map env_entry kvs"
    and wf: "\<forall>kv\<in>set kvs. CHR ''='' \<notin> set (fst kv)"
    by blast
  from run have keys: "map fst m = map fst (store_all kvs [])"
    unfolding envs by (rule ReplacedEnv_keys [OF wf])
  then have dist: "distinct (map fst m)"
    by (simp add: distinct_store_all_empty)
  from keys have "set (map fst m) = set (map fst (store_all kvs []))" by simp
  then have same_keys: "fst ` set m = fst ` set kvs"
    by (simp add: keys_store_all)
  have wf_m: "\<forall>kv\<in>set m. CHR ''='' \<notin> set (fst kv)"
  proof
    fix kv assume "kv \<in> set m"
    then have "fst kv \<in> fst ` set kvs" using same_keys by (metis imageI)
    then obtain kv' where "kv' \<in> set kvs" "fst kv = fst kv'" by auto
    with wf show "CHR ''='' \<notin> set (fst kv)" by simp
  qed
  from again have same: "set kvs' = set m" by (rule mset_eq_setD)
  from again have "mset (map fst kvs') = mset (map fst m)" by simp
  with dist have dist': "distinct (map fst kvs')"
    by (metis mset_eq_imp_distinct_iff)
  from same wf_m have wf': "\<forall>kv\<in>set kvs'. CHR ''='' \<notin> set (fst kv)" by simp
  from same plain have "indirections kvs' = []" by (simp add: indirections_Nil_iff)
  then have rerun: "ReplacedEnv seed' cli' (map env_entry kvs') = (Inr (store_all kvs' []), [])"
    by (simp add: ReplacedEnv_entries [OF wf'])
  from dist' have "distinct (map fst (rev kvs'))" by (simp add: rev_map [symmetric])
  with dist same have "map_of (rev kvs') = map_of m"
    by (simp add: map_of_inject_set)
  with rerun show ?thesis by (simp add: map_of_store_all_empty)
qed

theorem ReplacedEnv_rerun_without_marker_witness:
  "\<exists>m'. ReplacedEnv [] (stubClient []) [''B=secret'', ''A=1''] = (Inr m', []) \<and>
        map_of m' = map_of [(''A'', ''1''), (''B'', ''secret'')]"
proof -
  let ?m = "[(''A'', ''1''), (''B'', ''secret'')]"
  have run: "ReplacedEnv [] (stubClient [(''path/to/x'', ''secret'')]) [''A=1'', ''B=ssm://path/to/x'']
      = (Inr ?m,
         [SlogInfo ''fetching SSM parameters'' ''path/to/x'',
          GetParametersCall \<lparr>Names = [''path/to/x''], WithDecryption = Some True\<rparr>])"
    by (simp add: ReplacedEnv_def batchFetch_def stubClient_def SplitN2_def
        HasPrefix_def TrimPrefix_def ssmPrefix_def)
  have plain: "\<forall>kv\<in>set ?m. \<not> HasPrefix (snd kv) ssmPrefix"
    by (simp add: HasPrefix_def ssmPrefix_def)
  have again: "mset [(''B'', ''secret''), (''A'', ''1'')] = mset ?m" by simp
  from ReplacedEnv_rerun_without_marker [OF run plain again, of "[]" "stubClient []"]
  show ?thesis by (simp add: env_entry_def)
qed

text \<open>
  C3 as stated has no condition on the fetched values. A fetched value that itself
  begins with \<open>ssm://\<close> is stored as it is by the first run, and the second run follows
  it: \<open>B\<close> goes from \<open>ssm://x\<close> to \<open>ssm://y\<close> and then to \<open>plain\<close>.
\<close>

theorem ReplacedEnv_double_substitution_counterexample:
  "fst (ReplacedEnv [] (stubClient [(''x'', ''ssm://y''), (''y'', ''plain'')]) [''B=ssm://x'']) =
     Inr [(''B'', ''ssm://y'')] \<and>
   map env_entry [(''B'', ''ssm://y'')] = [''B=ssm://y''] \<and>
   fst (ReplacedEnv [] (stubClient [(''x'', ''ssm://y''), (''y'', ''plain'')]) [''B=ssm://y'']) =
     Inr [(''B'', ''plain'')]"
  by (simp add: ReplacedEnv_def batchFetch_def stubClient_def SplitN2_def HasPrefix_def
      TrimPrefix_def ssmPrefix_def Let_def env_entry_def)

text \<open>
  C4. A list of well-formed entries is \<open>map env_entry kvs\<close> with keys free of \<open>=\<close>. When
  no value of the list begins with \<open>ssm://\<close>, \<open>ReplacedEnv\<close> succeeds, the mapping it
  returns is the input parsed as a mapping from keys to values (\<open>map_of (rev kvs)\<close>, a
  later entry overriding an earlier one of the same key), and the run has no event: the
  client is never called, whatever the client and the iteration order are.
\<close>

theorem ReplacedEnv_without_marker:
  assumes "\<forall>kv\<in>set kvs. CHR ''='' \<notin> set (fst kv) \<and> \<not> HasPrefix (snd kv) ssmPrefix"
  shows "\<exists>m. ReplacedEnv seed cli (map env_entry kvs) = (Inr m, []) \<and>
             map_of m = map_of (rev kvs)"
proof -
  from assms have wf: "\<forall>kv\<in>set kvs. CHR ''='' \<notin> set (fst kv)" by blast
  from assms have "indirections kvs = []" by (simp add: indirections_Nil_iff)
  then have "ReplacedEnv seed cli (map env_entry kvs) = (Inr (store_all kvs []), [])"
    by (simp add: ReplacedEnv_entries [OF wf])
  then show ?thesis by (simp add: map_of_store_all_empty)
qed

theorem ReplacedEnv_without_marker_witness:
  "\<exists>m. ReplacedEnv [] (stubClient []) [''A=1'', ''B=x=y'', ''A=2''] = (Inr m, []) \<and>
       map_of m ''A'' = Some ''2'' \<and> map_of m ''B'' = Some ''x=y'' \<and> map_of m ''C'' = None"
proof -
  have "\<forall>kv\<in>set [(''A'', ''1''), (''B'', ''x=y''), (''A'', ''2'')].
          CHR ''='' \<notin> set (fst kv) \<and> \<not> HasPrefix (snd kv) ssmPrefix"
    by (simp add: HasPrefix_def ssmPrefix_def)
  from ReplacedEnv_without_marker [OF this, of "[]" "stubClient []"]
  obtain m where run: "ReplacedEnv [] (stubClient []) [''A=1'', ''B=x=y'', ''A=2''] = (Inr m, [])"
    and m: "map_of m = map_of (rev [(''A'', ''1''), (''B'', ''x=y''), (''A'', ''2'')])"
    by (auto simp: env_entry_def)
  from m have "map_of m ''A'' = Some ''2'' \<and> map_of m ''B'' = Some ''x=y'' \<and> map_of m ''C'' = None"
    by simp
  with run show ?thesis by blast
qed

text \<open>
  C5. When some entry \<open>e\<close> of the input has no \<open>=\<close>, \<open>ReplacedEnv\<close> returns the format
  error and no mapping, and the run has no event, so the client is not called. The error
  carries the raw entry at which the first loop stops, which is the first entry without
  \<open>=\<close>: \<open>e\<close> itself, unless an entry before \<open>e\<close> lacks the separator as well. This holds
  wherever the entry stands in the list and whatever the other entries are.
\<close>

theorem ReplacedEnv_format_error:
  assumes "e \<in> set envs" and "CHR ''='' \<notin> set e"
  shows "\<exists>pre bad post. envs = pre @ bad # post \<and> (\<forall>x\<in>set pre. CHR ''='' \<in> set x) \<and>
           CHR ''='' \<notin> set bad \<and> (bad = e \<or> e \<in> set post) \<and>
           ReplacedEnv seed cli envs = (Inl (InvalidEnvVarFormatError bad), [])"
proof -
  from assms obtain pre bad post where split: "envs = pre @ bad # post"
    and bad: "CHR ''='' \<notin> set bad" and pre: "\<forall>x\<in>set pre. CHR ''='' \<in> set x"
    using split_list_first_prop [of envs "\<lambda>x. CHR ''='' \<notin> set x"] by auto
  from assms split pre have where_e: "bad = e \<or> e \<in> set post" by auto
  have "scan_envs envs [] [] = (Inl (InvalidEnvVarFormatError bad) :: 'a error + gomap \<times> string list)"
    unfolding split using bad pre by (rule scan_envs_bad)
  then have "ReplacedEnv seed cli envs = (Inl (InvalidEnvVarFormatError bad), [])"
    by (simp add: ReplacedEnv_def)
  with split bad pre where_e show ?thesis by blast
qed

theorem ReplacedEnv_format_error_witness:
  "ReplacedEnv [] (stubClient [(''x'', ''s'')]) [''A=ssm://x'', ''NOVALUE'', ''B=2'']
     = (Inl (InvalidEnvVarFormatError ''NOVALUE''), [])"
proof -
  have "''NOVALUE'' \<in> set [''A=ssm://x'', ''NOVALUE'', ''B=2'']" by simp
  moreover have "CHR ''='' \<notin> set ''NOVALUE''" by simp
  ultimately obtain pre bad post where
    split: "[''A=ssm://x'', ''NOVALUE'', ''B=2''] = pre @ bad # post"
    and pre: "\<forall>x\<in>set pre. CHR ''='' \<in> set x" and bad: "CHR ''='' \<notin> set bad"
    and run: "ReplacedEnv [] (stubClient [(''x'', ''s'')]) [''A=ssm://x'', ''NOVALUE'', ''B=2'']
       = (Inl (InvalidEnvVarFormatError bad), [])"
    using ReplacedEnv_format_error [of "''NOVALUE''" "[''A=ssm://x'', ''NOVALUE'', ''B=2'']" "[]"
        "stubClient [(''x'', ''s'')]"]
    by blast
  from split bad have "bad \<in> {''A=ssm://x'', ''NOVALUE'', ''B=2''}"
    by (metis in_set_conv_decomp list.simps(15) empty_set)
  with bad have "bad = ''NOVALUE''" by auto
  with run show ?thesis by simp
qed

text \<open>
  C6, as the code has it. Let the entries be well-formed and the fetch succeed with the
  result \<open>ps\<close>. If the parsed input (\<open>map_of (rev kvs)\<close>, where a later entry of a key
  has overridden the earlier ones) has under some key a value that begins with \<open>ssm://\<close>
  and whose parameter key \<open>ps\<close> does not map, then \<open>ReplacedEnv\<close> returns no mapping
  but the not-found error, and the key the error names is the parameter key of such a
  value: it is referred to by the parsed input and is missing from \<open>ps\<close>.
\<close>

theorem ReplacedEnv_parameter_not_found:
  assumes wf: "\<forall>kv\<in>set kvs. CHR ''='' \<notin> set (fst kv)"
    and fetch: "fst (batchFetch cli (indirections kvs)) = (Inr ps :: 'e error + gomap)"
    and last: "map_of (rev kvs) k = Some v"
    and marked: "HasPrefix v ssmPrefix"
    and missing: "map_of ps (TrimPrefix v ssmPrefix) = None"
  shows "\<exists>k' v'. map_of (rev kvs) k' = Some v' \<and> HasPrefix v' ssmPrefix \<and>
           map_of ps (TrimPrefix v' ssmPrefix) = None \<and>
           fst (ReplacedEnv seed cli (map env_entry kvs)) =
             (Inl (ParameterNotFoundError (TrimPrefix v' ssmPrefix)) :: 'e error + gomap)"
  using assms by (rule ReplacedEnv_missing)

theorem ReplacedEnv_parameter_not_found_witness:
  "fst (ReplacedEnv [1] (stubClient [(''x'', ''s'')]) [''A=ssm://x'', ''B=ssm://y'', ''C=3'']) =
     Inl (ParameterNotFoundError ''y'')"
proof -
  let ?kvs = "[(''A'', ''ssm://x''), (''B'', ''ssm://y''), (''C'', ''3'')]"
  let ?cli = "stubClient [(''x'', ''s'')]"
  let ?ps = "[(''x'', ''s'')]"
  have wf: "\<forall>kv\<in>set ?kvs. CHR ''='' \<notin> set (fst kv)" by simp
  have fetch: "fst (batchFetch ?cli (indirections ?kvs)) = Inr ?ps"
    by (simp add: batchFetch_def stubClient_def)
  have last: "map_of (rev ?kvs) ''B'' = Some ''ssm://y''" by simp
  have marked: "HasPrefix ''ssm://y'' ssmPrefix"
    by (simp add: HasPrefix_def ssmPrefix_def)
  have missing: "map_of ?ps (TrimPrefix ''ssm://y'' ssmPrefix) = None"
    by (simp add: TrimPrefix_def HasPrefix_def ssmPrefix_def)
  from ReplacedEnv_parameter_not_found [OF wf fetch last marked missing, of "[1]"]
  obtain k' v' where v': "map_of (rev ?kvs) k' = Some v'" "HasPrefix v' ssmPrefix"
    "map_of ?ps (TrimPrefix v' ssmPrefix) = None"
    and run: "fst (ReplacedEnv [1] ?cli (map env_entry ?kvs)) =
      Inl (ParameterNotFoundError (TrimPrefix v' ssmPrefix))"
    by blast
  from v'(1) have "v' = ''ssm://x'' \<or> v' = ''ssm://y'' \<or> v' = ''3''"
    by (auto split: if_splits)
  with v'(2,3) have "TrimPrefix v' ssmPrefix = ''y''"
    by (auto simp: TrimPrefix_def HasPrefix_def ssmPrefix_def)
  with run show ?thesis by (simp add: env_entry_def)
qed

text \<open>
  C6 as stated speaks of every requested key. The key \<open>x\<close> is requested for the first
  entry of \<open>A\<close>, which the second entry overrides; the fetch succeeds and returns
  nothing for \<open>x\<close>, and the run returns the mapping.
\<close>

theorem ReplacedEnv_overridden_missing_counterexample:
  "fst (batchFetch (stubClient []) [''x'']) = Inr [] \<and>
   ReplacedEnv [] (stubClient []) [''A=ssm://x'', ''A=1''] =
     (Inr [(''A'', ''1'')],
      [SlogInfo ''fetching SSM parameters'' ''x'',
       GetParametersCall \<lparr>Names = [''x''], WithDecryption = Some True\<rparr>])"
  by (simp add: ReplacedEnv_def batchFetch_def stubClient_def SplitN2_def HasPrefix_def
      TrimPrefix_def ssmPrefix_def Let_def)

text \<open>
  C7. Whenever the client answers the call that a run of \<open>ReplacedEnv\<close> issues with an
  output whose list of invalid parameters is not empty (and with no error), the run
  returns the invalid-parameters error carrying exactly that list, and so no mapping,
  resolved in part or otherwise.
\<close>

theorem ReplacedEnv_invalid_parameters:
  assumes run: "ReplacedEnv seed cli envs = (r, tr)"
    and call: "GetParametersCall input \<in> set tr"
    and response: "cli input = (Some out, None)"
    and invalid: "InvalidParameters out \<noteq> []"
  shows "r = Inl (InvalidParametersError (InvalidParameters out))"
proof (cases "scan_envs envs [] [] :: 'a error + gomap \<times> string list")
  case (Inl e)
  with run call show ?thesis by (simp add: ReplacedEnv_def)
next
  case (Inr res)
  obtain orig ssmKeys where res: "res = (orig, ssmKeys)" by (cases res)
  show ?thesis
  proof (cases "ssmKeys = []")
    case True
    with Inr res run call show ?thesis by (simp add: ReplacedEnv_def)
  next
    case False
    let ?input = "\<lparr>Names = ssmKeys, WithDecryption = Some True\<rparr>"
    obtain fetched calls where bf: "batchFetch cli ssmKeys = (fetched, calls)"
      by (cases "batchFetch cli ssmKeys")
    with snd_batchFetch [of cli ssmKeys] have calls: "calls = [GetParametersCall ?input]"
      by simp
    from Inr res False run bf calls
    have tr: "tr = [SlogInfo ''fetching SSM parameters'' (Join ssmKeys '',''), GetParametersCall ?input]"
      by (cases fetched) (auto simp: ReplacedEnv_def Let_def)
    with call have "input = ?input" by simp
    with response invalid bf batchFetch_invalid [of cli ssmKeys out]
    have "fetched = Inl (InvalidParametersError (InvalidParameters out))" by simp
    with Inr res False run bf show ?thesis
      by (simp add: ReplacedEnv_def Let_def)
  qed
qed

theorem ReplacedEnv_invalid_parameters_witness:
  "ReplacedEnv [] (stubInvalid [''x'']) [''A=1'', ''B=ssm://x'', ''C=ssm://y''] =
     (Inl (InvalidParametersError [''x'']),
      [SlogInfo ''fetching SSM parameters'' ''x,y'',
       GetParametersCall \<lparr>Names = [''x'', ''y''], WithDecryption = Some True\<rparr>])"
proof -
  let ?envs = "[''A=1'', ''B=ssm://x'', ''C=ssm://y'']"
  let ?input = "\<lparr>Names = [''x'', ''y''], WithDecryption = Some True\<rparr>"
  let ?tr = "[SlogInfo ''fetching SSM parameters'' ''x,y'', GetParametersCall ?input]"
  let ?out = "\<lparr>Parameters = [], InvalidParameters = [''x'']\<rparr>"
  obtain r tr where run: "ReplacedEnv [] (stubInvalid [''x'']) ?envs = (r, tr)"
    by (cases "ReplacedEnv [] (stubInvalid [''x'']) ?envs")
  have "snd (ReplacedEnv [] (stubInvalid [''x'']) ?envs) = ?tr"
    by (simp add: ReplacedEnv_def batchFetch_def stubInvalid_def SplitN2_def
        HasPrefix_def TrimPrefix_def ssmPrefix_def)
  with run have tr: "tr = ?tr" by simp
  then have call: "GetParametersCall ?input \<in> set tr" by simp
  have response: "stubInvalid [''x''] ?input = (Some ?out, None)"
    by (simp add: stubInvalid_def)
  have invalid: "InvalidParameters ?out \<noteq> []" by simp
  from ReplacedEnv_invalid_parameters [OF run call response invalid]
  have "r = Inl (InvalidParametersError [''x''])" by simp
  with run tr show ?thesis by simp
qed

text \<open>
  C8. An entry with at least one \<open>=\<close> is \<open>k @ ''='' @ v\<close> with \<open>k\<close> free of \<open>=\<close>: \<open>k\<close> is
  the text before the first \<open>=\<close>. The split of \<open>ReplacedEnv\<close> gives exactly the key \<open>k\<close> and
  the value \<open>v\<close>, further \<open>=\<close> characters in \<open>v\<close> included, and the iteration of the first
  loop on this entry stores \<open>v\<close> under \<open>k\<close> and tests \<open>v\<close> for the marker.
\<close>

theorem ReplacedEnv_splits_on_first_separator:
  assumes "CHR ''='' \<notin> set k"
  shows "SplitN2 (k @ ''='' @ v) CHR ''='' = [k, v] \<and>
         (scan_envs ((k @ ''='' @ v) # envs) orig ssmKeys :: 'e error + gomap \<times> string list) =
           scan_envs envs (AList.update k v orig)
             (if HasPrefix v ssmPrefix then ssmKeys @ [TrimPrefix v ssmPrefix] else ssmKeys)"
  using assms SplitN2_first [of "CHR ''=''" k v] by (simp add: Let_def)

theorem ReplacedEnv_splits_on_first_separator_witness:
  "SplitN2 ''K=a=b'' CHR ''='' = [''K'', ''a=b''] \<and>
   scan_envs [''K=a=b''] [] [] = (Inr ([(''K'', ''a=b'')], []) :: unit error + gomap \<times> string list) \<and>
   ReplacedEnv [] (stubClient []) [''K=a=b''] = (Inr [(''K'', ''a=b'')], [])"
proof -
  have k: "CHR ''='' \<notin> set ''K''" by simp
  from ReplacedEnv_splits_on_first_separator [where 'e = unit, OF k, of "''a=b''" "[]" "[]" "[]"]
  have split: "SplitN2 ''K=a=b'' CHR ''='' = [''K'', ''a=b'']"
    and scan: "scan_envs [''K=a=b''] [] [] = (Inr ([(''K'', ''a=b'')], []) :: unit error + gomap \<times> string list)"
    by (simp_all add: HasPrefix_def ssmPrefix_def)
  from scan have "ReplacedEnv [] (stubClient []) [''K=a=b''] = (Inr [(''K'', ''a=b'')], [])"
    unfolding ReplacedEnv_def by simp
  with split scan show ?thesis by simp
qed

text \<open>
  C9. Let the entry \<open>k=v\<close> be the last one for the key \<open>k\<close>: no entry after it has that
  key, any number of entries before it may. Whenever \<open>ReplacedEnv\<close> returns a mapping, the
  value under \<open>k\<close> is the one derived from this last entry: \<open>v\<close> itself, or, when \<open>v\<close>
  begins with \<open>ssm://\<close>, the fetched value of the parameter that \<open>v\<close> names.
\<close>

theorem ReplacedEnv_last_write_wins:
  assumes wf: "\<forall>kv\<in>set (pre @ (k, v) # post). CHR ''='' \<notin> set (fst kv)"
    and last: "k \<notin> fst ` set post"
    and run: "ReplacedEnv seed cli (map env_entry (pre @ (k, v) # post))
                = (Inr m :: 'e error + gomap, tr)"
  shows "if HasPrefix v ssmPrefix
         then \<exists>ps val. fst (batchFetch cli (indirections (pre @ (k, v) # post))) = Inr ps \<and>
                map_of ps (TrimPrefix v ssmPrefix) = Some val \<and> map_of m k = Some val
         else map_of m k = Some v"
proof -
  from last have "map_of (rev post) k = None"
    by (simp add: map_of_eq_None_iff)
  then have "map_of (rev (pre @ (k, v) # post)) k = Some v"
    by (simp add: map_add_def)
  with wf run show ?thesis by (rule ReplacedEnv_lookup)
qed

theorem ReplacedEnv_last_write_wins_witness:
  "map_of [(''A'', ''s''), (''B'', ''2'')] ''A'' = Some ''s'' \<and>
   ReplacedEnv [] (stubClient [(''x'', ''s'')]) [''A=1'', ''A=ssm://x'', ''B=2''] =
     (Inr [(''A'', ''s''), (''B'', ''2'')],
      [SlogInfo ''fetching SSM parameters'' ''x'',
       GetParametersCall \<lparr>Names = [''x''], WithDecryption = Some True\<rparr>])"
proof -
  let ?cli = "stubClient [(''x'', ''s'')]"
  let ?m = "[(''A'', ''s''), (''B'', ''2'')]"
  let ?tr = "[SlogInfo ''fetching SSM parameters'' ''x'',
       GetParametersCall \<lparr>Names = [''x''], WithDecryption = Some True\<rparr>]"
  have wf: "\<forall>kv\<in>set ([(''A'', ''1'')] @ (''A'', ''ssm://x'') # [(''B'', ''2'')]).
      CHR ''='' \<notin> set (fst kv)" by simp
  have last: "''A'' \<notin> fst ` set [(''B'', ''2'')]" by simp
  have run: "ReplacedEnv [] ?cli (map env_entry ([(''A'', ''1'')] @ (''A'', ''ssm://x'') # [(''B'', ''2'')]))
      = (Inr ?m, ?tr)"
    by (simp add: env_entry_def ReplacedEnv_def batchFetch_def stubClient_def SplitN2_def
        HasPrefix_def TrimPrefix_def ssmPrefix_def)
  have fetched: "fst (batchFetch ?cli (indirections ([(''A'', ''1'')] @ (''A'', ''ssm://x'') # [(''B'', ''2'')])))
      = Inr [(''x'', ''s'')]"
    by (simp add: batchFetch_def stubClient_def)
  have marked: "HasPrefix ''ssm://x'' ssmPrefix"
    by (simp add: HasPrefix_def ssmPrefix_def)
  have strip: "TrimPrefix ''ssm://x'' ssmPrefix = ''x''"
    by (simp add: TrimPrefix_def HasPrefix_def ssmPrefix_def)
  from ReplacedEnv_last_write_wins [OF wf last run] marked fetched strip
  have "map_of ?m ''A'' = Some ''s''" by simp
  with run show ?thesis by (simp add: env_entry_def)
qed

text \<open>
  C10, as the code has it. In a list of well-formed entries, an entry whose value is
  exactly \<open>ssm://\<close> makes \<open>ReplacedEnv\<close> issue one remote call whose names include the
  empty string. If moreover the fetch succeeds with a result that does not map the
  empty string, the entry is the last one of its key, and the result maps every other
  requested name, then the run returns the not-found error whose key is the empty
  string.
\<close>

theorem ReplacedEnv_bare_marker:
  assumes wf: "\<forall>kv\<in>set kvs. CHR ''='' \<notin> set (fst kv)"
    and entry: "(k, ''ssm://'') \<in> set kvs"
  shows "fetch_calls (snd (ReplacedEnv seed cli (map env_entry kvs))) =
           [\<lparr>Names = indirections kvs, WithDecryption = Some True\<rparr>] \<and>
         '''' \<in> set (indirections kvs) \<and>
         (\<forall>ps. fst (batchFetch cli (indirections kvs)) = (Inr ps :: 'e error + gomap) \<and>
               map_of ps '''' = None \<and>
               map_of (rev kvs) k = Some ''ssm://'' \<and>
               (\<forall>n\<in>set (indirections kvs). n \<noteq> '''' \<longrightarrow> map_of ps n \<noteq> None) \<longrightarrow>
               fst (ReplacedEnv seed cli (map env_entry kvs)) =
                 (Inl (ParameterNotFoundError '''') :: 'e error + gomap))"
proof -
  have marked: "HasPrefix ''ssm://'' ssmPrefix"
    by (simp add: HasPrefix_def ssmPrefix_def)
  have strip: "TrimPrefix ''ssm://'' ssmPrefix = ''''"
    by (simp add: TrimPrefix_def HasPrefix_def ssmPrefix_def)
  from entry have "''ssm://'' \<in> snd ` set kvs" by (auto intro: rev_image_eqI)
  with marked have "TrimPrefix ''ssm://'' ssmPrefix \<in> set (indirections kvs)"
    unfolding set_indirections by blast
  then have empty_name: "'''' \<in> set (indirections kvs)" by (simp add: strip)
  then have "indirections kvs \<noteq> []" by auto
  then have one: "fetch_calls (snd (ReplacedEnv seed cli (map env_entry kvs))) =
           [\<lparr>Names = indirections kvs, WithDecryption = Some True\<rparr>]"
    by (simp add: fetch_calls_ReplacedEnv [OF wf])
  have fails: "fst (ReplacedEnv seed cli (map env_entry kvs)) =
                 (Inl (ParameterNotFoundError '''') :: 'e error + gomap)"
    if fetch: "fst (batchFetch cli (indirections kvs)) = (Inr ps :: 'e error + gomap)"
      and missing: "map_of ps '''' = None"
      and last: "map_of (rev kvs) k = Some ''ssm://''"
      and others: "\<forall>n\<in>set (indirections kvs). n \<noteq> '''' \<longrightarrow> map_of ps n \<noteq> None"
    for ps
  proof -
    from missing have "map_of ps (TrimPrefix ''ssm://'' ssmPrefix) = None"
      by (simp add: strip)
    from ReplacedEnv_missing [OF wf fetch last marked this, of seed]
    obtain k' v' where v': "map_of (rev kvs) k' = Some v'" "HasPrefix v' ssmPrefix"
      "map_of ps (TrimPrefix v' ssmPrefix) = None"
      and run: "fst (ReplacedEnv seed cli (map env_entry kvs)) =
        (Inl (ParameterNotFoundError (TrimPrefix v' ssmPrefix)) :: 'e error + gomap)"
      by blast
    from v'(1) have "v' \<in> snd ` set kvs"
      by (auto dest!: map_of_SomeD intro: rev_image_eqI)
    with v'(2) have "TrimPrefix v' ssmPrefix \<in> set (indirections kvs)"
      unfolding set_indirections by blast
    with others v'(3) have "TrimPrefix v' ssmPrefix = ''''" by blast
    with run show ?thesis by simp
  qed
  from one empty_name fails show ?thesis by blast
qed

theorem ReplacedEnv_bare_marker_witness:
  "fetch_calls (snd (ReplacedEnv [1] (stubClient [(''x'', ''s'')]) [''A=ssm://'', ''B=ssm://x''])) =
     [\<lparr>Names = ['''', ''x''], WithDecryption = Some True\<rparr>] \<and>
   fst (ReplacedEnv [1] (stubClient [(''x'', ''s'')]) [''A=ssm://'', ''B=ssm://x'']) =
     Inl (ParameterNotFoundError '''')"
proof -
  let ?kvs = "[(''A'', ''ssm://''), (''B'', ''ssm://x'')]"
  let ?cli = "stubClient [(''x'', ''s'')]"
  have wf: "\<forall>kv\<in>set ?kvs. CHR ''='' \<notin> set (fst kv)" by simp
  have entry: "(''A'', ''ssm://'') \<in> set ?kvs" by simp
  have names: "indirections ?kvs = ['''', ''x'']"
    by (simp add: indirections_def HasPrefix_def TrimPrefix_def ssmPrefix_def)
  have fetch: "fst (batchFetch ?cli (indirections ?kvs)) = Inr [(''x'', ''s'')]"
    by (simp add: batchFetch_def stubClient_def)
  have rest: "map_of [(''x'', ''s'')] '''' = None \<and>
      map_of (rev ?kvs) ''A'' = Some ''ssm://'' \<and>
      (\<forall>n\<in>set (indirections ?kvs). n \<noteq> '''' \<longrightarrow> map_of [(''x'', ''s'')] n \<noteq> None)"
    by (simp add: names)
  note bare = ReplacedEnv_bare_marker [where 'e = unit, OF wf entry, of "[1]" ?cli]
  from bare have calls: "fetch_calls (snd (ReplacedEnv [1] ?cli (map env_entry ?kvs))) =
      [\<lparr>Names = ['''', ''x''], WithDecryption = Some True\<rparr>]"
    by (simp add: names)
  from bare fetch rest have "fst (ReplacedEnv [1] ?cli (map env_entry ?kvs)) =
      Inl (ParameterNotFoundError '''')"
    by blast
  with calls show ?thesis by (simp add: env_entry_def)
qed

text \<open>
  C10 as stated has neither of the two conditions. An entry \<open>A=ssm://\<close> that a later
  entry of \<open>A\<close> overrides is not looked up after the fetch, and the run returns the
  mapping; and when another requested key is missing as well, the error names the key
  that the second loop reaches first, here \<open>x\<close>.
\<close>

theorem ReplacedEnv_bare_marker_counterexample:
  "fst (batchFetch (stubClient []) ['''']) = Inr [] \<and>
   ReplacedEnv [] (stubClient []) [''A=ssm://'', ''A=1''] =
     (Inr [(''A'', ''1'')],
      [SlogInfo ''fetching SSM parameters'' '''',
       GetParametersCall \<lparr>Names = [''''], WithDecryption = Some True\<rparr>]) \<and>
   fst (batchFetch (stubClient []) [''x'', '''']) = Inr [] \<and>
   fst (ReplacedEnv [] (stubClient []) [''A=ssm://x'', ''B=ssm://'']) =
     Inl (ParameterNotFoundError ''x'')"
  by (simp add: ReplacedEnv_def batchFetch_def stubClient_def SplitN2_def HasPrefix_def
      TrimPrefix_def ssmPrefix_def Let_def)

end
